theory Spec2Isabelle
  imports Complex_Main "HOL-Library.AList"
begin

section \<open>Data model (types/walkthrough.ts)\<close>

text \<open>
  The interfaces of the application become records.  A field that two interfaces
  share (\<open>id\<close>, \<open>frames\<close>) gets a prefix, because record fields are global
  constants: \<open>frame_id\<close>, \<open>cs_id\<close>, \<open>ws_id\<close>, \<open>ws_frames\<close>.
  Timestamps are the integers that \<open>Date.now()\<close> returns; counters are naturals.
  An optional property is an \<open>option\<close>.
\<close>

record WalkthroughFrame =
  frame_id :: string
  imageData :: string
  timestamp :: int
  position :: "(real \<times> real \<times> real) option"
  orientation :: "(real \<times> real \<times> real) option"

record session_metadata =
  deviceInfo :: string
  totalFrames :: int
  duration :: int
  totalSize :: int

record WalkthroughSession =
  ws_id :: string
  title :: string
  description :: string
  ws_frames :: "WalkthroughFrame list"
  createdAt :: int
  updatedAt :: int
  isUploaded :: bool
  uploadProgress :: "real option"
  location :: "(real \<times> real) option"
  metadata :: session_metadata

record CaptureSession =
  cs_id :: string
  frames :: "WalkthroughFrame list"
  startTime :: int
  isActive :: bool
  currentStep :: nat
  totalSteps :: nat

section \<open>Decimal rendering of numbers in template strings\<close>

text \<open>
  \<open>`frame_${Date.now()}_${n}`\<close> renders both numbers in decimal.  \<open>show_nat\<close> is
  that rendering for a natural number and \<open>show_int\<close> adds the sign.
\<close>

definition digit_char :: "nat \<Rightarrow> char" where
  "digit_char d = char_of (48 + d)"

fun show_nat :: "nat \<Rightarrow> string" where
  "show_nat n = (if n < 10 then [digit_char n] else show_nat (n div 10) @ [digit_char (n mod 10)])"

declare show_nat.simps [simp del]

definition show_int :: "int \<Rightarrow> string" where
  "show_int i = (if i < 0 then CHR ''-'' # show_nat (nat (- i)) else show_nat (nat i))"

section \<open>Capture Session Manager (hooks/useCamera.ts)\<close>

text \<open>
  The hook owns two pieces of React state, \<open>isCapturing\<close> and \<open>currentSession\<close>
  (\<open>null\<close> is \<open>None\<close>).  \<open>stopCaptureSession\<close> also writes the frames of the stopped
  session to \<open>localStorage\<close>; the store is kept as an association list from key to the
  frames whose JSON text the source writes.  Every callback is modelled as a function from
  the state it is called in to its return value and the next state: calls are sequential and
  each one sees the state its predecessor left.  Toasts and console output do not feed back
  into the state and are left out.
\<close>

record camera_state =
  isCapturing :: bool
  currentSession :: "CaptureSession option"
  localStorage :: "(string \<times> WalkthroughFrame list) list"

definition idle :: camera_state where
  "idle = \<lparr>isCapturing = False, currentSession = None, localStorage = []\<rparr>"

text \<open>\<open>startCaptureSession\<close> reads \<open>Date.now()\<close> twice: for the id and for \<open>startTime\<close>.\<close>

definition startCaptureSession :: "int \<Rightarrow> int \<Rightarrow> camera_state \<Rightarrow> CaptureSession \<times> camera_state" where
  "startCaptureSession now_id now_start st =
     (let session = \<lparr>cs_id = ''session_'' @ show_int now_id, frames = [], startTime = now_start,
                      isActive = True, currentStep = 0, totalSteps = 10\<rparr>
      in (session, st\<lparr>currentSession := Some session, isCapturing := True\<rparr>))"

text \<open>
  What one \<open>captureFrame\<close> call meets in its environment: whether Capacitor is present,
  what the haptics and camera plugins answer (a rejected promise is \<open>Inl\<close>), what the
  browser canvas produces for the placeholder, and the two clock readings.
\<close>

datatype capture_error = HapticsFailed | CameraFailed | CanvasFailed

record capture_env =
  isCapacitorAvailable :: bool
  haptics_impact :: "capture_error + unit"
  camera_getPhoto :: "capture_error + string"
  canvas_toDataURL :: "capture_error + string"
  now_frame_id :: int
  now_timestamp :: int

text \<open>The body of the \<open>try\<close> block up to the point where \<open>imageData\<close> is known.\<close>

definition capture_image :: "capture_env \<Rightarrow> capture_error + string" where
  "capture_image env =
     (case (if isCapacitorAvailable env then haptics_impact env else Inr ()) of
        Inl e \<Rightarrow> Inl e
      | Inr _ \<Rightarrow> (if isCapacitorAvailable env then camera_getPhoto env else canvas_toDataURL env))"

definition make_frame_id :: "int \<Rightarrow> nat \<Rightarrow> string" where
  "make_frame_id now n = ''frame_'' @ show_int now @ ''_'' @ show_nat n"

definition captureFrame :: "capture_env \<Rightarrow> camera_state \<Rightarrow> WalkthroughFrame option \<times> camera_state" where
  "captureFrame env st =
     (case currentSession st of
        None \<Rightarrow> (None, st)
      | Some cs \<Rightarrow>
          (case capture_image env of
             Inl e \<Rightarrow> (None, st)
           | Inr img \<Rightarrow>
               (let frame = \<lparr>frame_id = make_frame_id (now_frame_id env) (length (frames cs)),
                              imageData = img, timestamp = now_timestamp env,
                              position = None, orientation = None\<rparr>;
                    updatedSession = cs\<lparr>frames := frames cs @ [frame],
                                          currentStep := currentStep cs + 1\<rparr>
                in (Some frame, st\<lparr>currentSession := Some updatedSession\<rparr>))))"

text \<open>
  \<open>stopCaptureSession\<close> calls \<open>localStorage.setItem\<close> outside any \<open>try\<close>: when the
  write throws (\<open>write_ok = False\<close>, a full or disabled store) the exception leaves the
  callback after \<open>setCurrentSession\<close> and before \<open>setIsCapturing(false)\<close>.
\<close>

datatype storage_error = QuotaExceeded

definition stopCaptureSession :: "bool \<Rightarrow> camera_state \<Rightarrow> (storage_error + CaptureSession option) \<times> camera_state" where
  "stopCaptureSession write_ok st =
     (case currentSession st of
        Some cs \<Rightarrow>
          (let completedSession = cs\<lparr>isActive := False\<rparr>;
               st1 = st\<lparr>currentSession := Some completedSession\<rparr>
           in if write_ok
              then (Inr (Some completedSession),
                    st1\<lparr>localStorage := AList.update (''session_'' @ cs_id completedSession)
                                           (frames completedSession) (localStorage st1),
                        isCapturing := False\<rparr>)
              else (Inl QuotaExceeded, st1))
      | None \<Rightarrow> (Inr None, st\<lparr>isCapturing := False\<rparr>))"

definition resetSession :: "camera_state \<Rightarrow> camera_state" where
  "resetSession st = st\<lparr>currentSession := None, isCapturing := False\<rparr>"

text \<open>
  The second copy of the hook in the repository (the one without the Capacitor check)
  differs in two places: it always calls the two plugins, and its \<open>stopCaptureSession\<close>
  returns the session it was called with, not the one it stores.
\<close>

definition captureFrame_v0 :: "capture_env \<Rightarrow> camera_state \<Rightarrow> WalkthroughFrame option \<times> camera_state" where
  "captureFrame_v0 env st =
     (case currentSession st of
        None \<Rightarrow> (None, st)
      | Some cs \<Rightarrow>
          (case (case haptics_impact env of Inl e \<Rightarrow> Inl e | Inr _ \<Rightarrow> camera_getPhoto env) of
             Inl e \<Rightarrow> (None, st)
           | Inr img \<Rightarrow>
               (let frame = \<lparr>frame_id = make_frame_id (now_frame_id env) (length (frames cs)),
                              imageData = img, timestamp = now_timestamp env,
                              position = None, orientation = None\<rparr>;
                    updatedSession = cs\<lparr>frames := frames cs @ [frame],
                                          currentStep := currentStep cs + 1\<rparr>
                in (Some frame, st\<lparr>currentSession := Some updatedSession\<rparr>))))"

definition stopCaptureSession_v0 :: "camera_state \<Rightarrow> CaptureSession option \<times> camera_state" where
  "stopCaptureSession_v0 st =
     (currentSession st,
      st\<lparr>currentSession := (case currentSession st of
                               Some prev \<Rightarrow> Some (prev\<lparr>isActive := False\<rparr>)
                             | None \<Rightarrow> None),
         isCapturing := False\<rparr>)"

text \<open>Sequences of calls on the manager.\<close>

datatype camera_call =
    Start int int
  | Capture capture_env
  | Stop bool
  | Reset

fun exec_call :: "camera_call \<Rightarrow> camera_state \<Rightarrow> camera_state" where
  "exec_call (Start t1 t2) st = snd (startCaptureSession t1 t2 st)"
| "exec_call (Capture env) st = snd (captureFrame env st)"
| "exec_call (Stop ok) st = snd (stopCaptureSession ok st)"
| "exec_call Reset st = resetSession st"

definition run_calls :: "camera_call list \<Rightarrow> camera_state \<Rightarrow> camera_state" where
  "run_calls cs st = fold exec_call cs st"

text \<open>
  \<open>capture_all\<close> runs \<open>captureFrame\<close> once per environment and collects what every
  call returned, so that "the call succeeded" is a statement about its return value.
\<close>

fun capture_all :: "capture_env list \<Rightarrow> camera_state \<Rightarrow> WalkthroughFrame option list \<times> camera_state" where
  "capture_all [] st = ([], st)"
| "capture_all (env # envs) st =
     (let (r, st1) = captureFrame env st; (rs, st2) = capture_all envs st1 in (r # rs, st2))"

text \<open>
  A session "has been started and not reset" after a sequence of calls when the last
  \<open>Start\<close> or \<open>Reset\<close> in it is a \<open>Start\<close>.
\<close>

fun started_after :: "camera_call \<Rightarrow> bool \<Rightarrow> bool" where
  "started_after (Start t1 t2) b = True"
| "started_after Reset b = False"
| "started_after (Capture env) b = b"
| "started_after (Stop ok) b = b"

definition session_started :: "camera_call list \<Rightarrow> bool" where
  "session_started calls = fold started_after calls False"

text \<open>
  The guard of the auto-capture ticker in CameraInterface:
  \<open>currentSession && currentSession.currentStep < currentSession.totalSteps\<close>.
  \<open>capture_guarded calls st\<close> says that every \<open>captureFrame\<close> call of the sequence is
  made in a state that passes this guard.
\<close>

definition ticker_guard :: "camera_state \<Rightarrow> bool" where
  "ticker_guard st = (case currentSession st of None \<Rightarrow> False | Some cs \<Rightarrow> currentStep cs < totalSteps cs)"

fun capture_guarded :: "camera_call list \<Rightarrow> camera_state \<Rightarrow> bool" where
  "capture_guarded [] st = True"
| "capture_guarded (Capture env # calls) st = (ticker_guard st \<and> capture_guarded calls (exec_call (Capture env) st))"
| "capture_guarded (c # calls) st = capture_guarded calls (exec_call c st)"

text \<open>
  The part of a frame id after its last underscore, and the invariant that the frames of a
  session carry their own index there.
\<close>

definition id_suffix :: "string \<Rightarrow> string" where
  "id_suffix s = rev (takeWhile (\<lambda>c. c \<noteq> CHR ''_'') (rev s))"

definition frames_indexed :: "WalkthroughFrame list \<Rightarrow> bool" where
  "frames_indexed fs = (map (\<lambda>f. id_suffix (frame_id f)) fs = map show_nat [0..<length fs])"

definition session_inv :: "camera_state \<Rightarrow> bool" where
  "session_inv st =
     (case currentSession st of
        None \<Rightarrow> True
      | Some cs \<Rightarrow> frames_indexed (frames cs) \<and> currentStep cs = length (frames cs) \<and> totalSteps cs = 10)"

text \<open>The bound that the claim about \<open>currentStep\<close> asks for, as a predicate on manager states.\<close>

definition step_bounded :: "camera_state \<Rightarrow> bool" where
  "step_bounded st =
     (case currentSession st of
        None \<Rightarrow> True
      | Some cs \<Rightarrow> currentStep cs \<le> totalSteps cs \<and> totalSteps cs = 10)"

section \<open>Local Store (hooks/useLocalStorage.ts)\<close>

text \<open>
  \<open>useLocalStorage\<close> keeps the value in React state and mirrors it into
  \<open>window.localStorage\<close>.  \<open>setValue\<close> updates the state first and writes second, inside a
  \<open>try\<close>: a failed write (\<open>write_ok = False\<close>) is logged and leaves the persisted copy
  as it was.  \<open>persisted\<close> stands for the JSON text under the key.
\<close>

record 'a local_store =
  storedValue :: 'a
  persisted :: "'a option"

definition setValue :: "bool \<Rightarrow> ('a \<Rightarrow> 'a) \<Rightarrow> 'a local_store \<Rightarrow> 'a local_store" where
  "setValue write_ok f st =
     (let valueToStore = f (storedValue st)
      in if write_ok then st\<lparr>storedValue := valueToStore, persisted := Some valueToStore\<rparr>
         else st\<lparr>storedValue := valueToStore\<rparr>)"

text \<open>
  \<open>Partial<WalkthroughSession>\<close>: every property may be absent.  The object spread
  \<open>{ ...session, ...updates, updatedAt: Date.now() }\<close> takes a property from \<open>updates\<close>
  when it is there, from \<open>session\<close> otherwise, and \<open>updatedAt\<close> from the clock in any case.
\<close>

record session_updates =
  set_id :: "string option"
  set_title :: "string option"
  set_description :: "string option"
  set_frames :: "WalkthroughFrame list option"
  set_createdAt :: "int option"
  set_updatedAt :: "int option"
  set_isUploaded :: "bool option"
  set_uploadProgress :: "real option"
  set_location :: "(real \<times> real) option"
  set_metadata :: "session_metadata option"

definition spread :: "'a \<Rightarrow> 'a option \<Rightarrow> 'a" where
  "spread old new = (case new of Some v \<Rightarrow> v | None \<Rightarrow> old)"

definition merge_session :: "WalkthroughSession \<Rightarrow> session_updates \<Rightarrow> int \<Rightarrow> WalkthroughSession" where
  "merge_session s updates now =
     \<lparr>ws_id = spread (ws_id s) (set_id updates),
      title = spread (title s) (set_title updates),
      description = spread (description s) (set_description updates),
      ws_frames = spread (ws_frames s) (set_frames updates),
      createdAt = spread (createdAt s) (set_createdAt updates),
      updatedAt = now,
      isUploaded = spread (isUploaded s) (set_isUploaded updates),
      uploadProgress = (case set_uploadProgress updates of Some p \<Rightarrow> Some p | None \<Rightarrow> uploadProgress s),
      location = (case set_location updates of Some l \<Rightarrow> Some l | None \<Rightarrow> location s),
      metadata = spread (metadata s) (set_metadata updates)\<rparr>"

type_synonym walkthrough_store = "WalkthroughSession list local_store"

text \<open>
  The four operations of \<open>useWalkthroughStorage\<close>.  \<open>now\<close> is the reading of
  \<open>Date.now()\<close> taken while the matching session is rebuilt.
\<close>

definition addSession :: "bool \<Rightarrow> WalkthroughSession \<Rightarrow> walkthrough_store \<Rightarrow> walkthrough_store" where
  "addSession write_ok s = setValue write_ok (\<lambda>prev. s # prev)"

definition updateSession :: "bool \<Rightarrow> int \<Rightarrow> string \<Rightarrow> session_updates \<Rightarrow> walkthrough_store \<Rightarrow> walkthrough_store" where
  "updateSession write_ok now i updates =
     setValue write_ok (\<lambda>prev. map (\<lambda>s. if ws_id s = i then merge_session s updates now else s) prev)"

definition deleteSession :: "bool \<Rightarrow> string \<Rightarrow> walkthrough_store \<Rightarrow> walkthrough_store" where
  "deleteSession write_ok i = setValue write_ok (\<lambda>prev. filter (\<lambda>s. ws_id s \<noteq> i) prev)"

definition getSession :: "string \<Rightarrow> walkthrough_store \<Rightarrow> WalkthroughSession option" where
  "getSession i st = find (\<lambda>s. ws_id s = i) (storedValue st)"

section \<open>Playback Controller (components/WalkthroughViewer.tsx)\<close>

text \<open>
  The viewer's React state.  \<open>session\<close> is \<open>undefined\<close> (\<open>None\<close>) until the lookup in the
  store has run.  \<open>playback_tick\<close> is one firing of the interval; the effect arms the
  interval only while \<open>isPlaying\<close> holds and a session is loaded, and clears it when either
  changes, so a tick in any other state does nothing.  Both copies of the viewer in the
  repository have the same effect, the same handlers and the same \<open>progress\<close> line.
\<close>

record viewer_state =
  session :: "WalkthroughSession option"
  currentFrameIndex :: int
  isPlaying :: bool
  playbackSpeed :: int

definition playback_tick :: "viewer_state \<Rightarrow> viewer_state" where
  "playback_tick v =
     (case session v of
        None \<Rightarrow> v
      | Some s \<Rightarrow>
          if \<not> isPlaying v then v
          else if currentFrameIndex v \<ge> int (length (ws_frames s)) - 1
               then v\<lparr>isPlaying := False, currentFrameIndex := 0\<rparr>
               else v\<lparr>currentFrameIndex := currentFrameIndex v + 1\<rparr>)"

text \<open>The handlers and flags below are those of a viewer whose session \<open>s\<close> is loaded.\<close>

definition goToNextFrame :: "WalkthroughSession \<Rightarrow> viewer_state \<Rightarrow> viewer_state" where
  "goToNextFrame s v =
     (if currentFrameIndex v < int (length (ws_frames s)) - 1
      then v\<lparr>currentFrameIndex := currentFrameIndex v + 1\<rparr> else v)"

definition goToPrevFrame :: "viewer_state \<Rightarrow> viewer_state" where
  "goToPrevFrame v =
     (if currentFrameIndex v > 0 then v\<lparr>currentFrameIndex := currentFrameIndex v - 1\<rparr> else v)"

definition next_disabled :: "WalkthroughSession \<Rightarrow> viewer_state \<Rightarrow> bool" where
  "next_disabled s v = (currentFrameIndex v = int (length (ws_frames s)) - 1)"

definition prev_disabled :: "viewer_state \<Rightarrow> bool" where
  "prev_disabled v = (currentFrameIndex v = 0)"

text \<open>
  A JavaScript division of two integers does not raise on a zero divisor: it yields
  \<open>NaN\<close> for \<open>0 / 0\<close> and an infinity otherwise.  The quotient of a non-zero divisor
  is kept exact here.
\<close>

datatype js_number = Finite real | NaN | PosInfinity | NegInfinity

definition js_divide :: "int \<Rightarrow> int \<Rightarrow> js_number" where
  "js_divide a b =
     (if b = 0 then (if a = 0 then NaN else if 0 < a then PosInfinity else NegInfinity)
      else Finite (of_int a / of_int b))"

definition times_100 :: "js_number \<Rightarrow> js_number" where
  "times_100 x = (case x of Finite r \<Rightarrow> Finite (r * 100) | NaN \<Rightarrow> NaN
                  | PosInfinity \<Rightarrow> PosInfinity | NegInfinity \<Rightarrow> NegInfinity)"

definition progress :: "WalkthroughSession \<Rightarrow> viewer_state \<Rightarrow> js_number" where
  "progress s v =
     (if length (ws_frames s) > 0
      then times_100 (js_divide (currentFrameIndex v) (int (length (ws_frames s)) - 1))
      else Finite 0)"

section \<open>Concrete inputs\<close>

definition browser_env :: capture_env where
  "browser_env = \<lparr>isCapacitorAvailable = False, haptics_impact = Inr (),
     camera_getPhoto = Inl CameraFailed, canvas_toDataURL = Inr ''data:image/png;base64,AAAA'',
     now_frame_id = 5, now_timestamp = 5\<rparr>"

definition camera_down_env :: capture_env where
  "camera_down_env = \<lparr>isCapacitorAvailable = True, haptics_impact = Inr (),
     camera_getPhoto = Inl CameraFailed, canvas_toDataURL = Inr [],
     now_frame_id = 5, now_timestamp = 5\<rparr>"

definition sample_frame :: WalkthroughFrame where
  "sample_frame = \<lparr>frame_id = ''frame_0_0'', imageData = ''data:image/png;base64,AAAA'',
     timestamp = 0, position = None, orientation = None\<rparr>"

definition sample_session :: "string \<Rightarrow> WalkthroughFrame list \<Rightarrow> int \<Rightarrow> int \<Rightarrow> WalkthroughSession" where
  "sample_session i fs c u = \<lparr>ws_id = i, title = ''Kitchen'', description = [], ws_frames = fs,
     createdAt = c, updatedAt = u, isUploaded = False, uploadProgress = None, location = None,
     metadata = \<lparr>deviceInfo = [], totalFrames = 0, duration = 0, totalSize = 0\<rparr>\<rparr>"

definition mark_uploaded :: session_updates where
  "mark_uploaded = \<lparr>set_id = None, set_title = None, set_description = None, set_frames = None,
     set_createdAt = None, set_updatedAt = None, set_isUploaded = Some True,
     set_uploadProgress = None, set_location = None, set_metadata = None\<rparr>"

definition move_createdAt :: session_updates where
  "move_createdAt = \<lparr>set_id = None, set_title = None, set_description = None, set_frames = None,
     set_createdAt = Some 900, set_updatedAt = None, set_isUploaded = None,
     set_uploadProgress = None, set_location = None, set_metadata = None\<rparr>"

definition sample_store :: walkthrough_store where
  "sample_store = \<lparr>storedValue = [sample_session ''session_100'' [] 100 100], persisted = None\<rparr>"

definition sample_viewer :: "nat \<Rightarrow> int \<Rightarrow> viewer_state" where
  "sample_viewer n i = \<lparr>session = Some (sample_session ''session_100'' (replicate n sample_frame) 100 100),
     currentFrameIndex = i, isPlaying = True, playbackSpeed = 1000\<rparr>"

section \<open>Decimal rendering is injective and free of underscores\<close>

lemma of_char_digit_char: "d < 10 \<Longrightarrow> of_char (digit_char d) = 48 + d"
  by (simp add: digit_char_def take_bit_nat_eq_self_iff)

lemma digit_char_inj:
  assumes "d < 10" and "d' < 10" and "digit_char d = digit_char d'"
  shows "d = d'"
proof -
  from assms(3) have "(of_char (digit_char d) :: nat) = of_char (digit_char d')" by simp
  then show ?thesis using assms(1,2) by (simp add: of_char_digit_char)
qed

lemma digit_char_not_underscore:
  assumes "d < 10" shows "digit_char d \<noteq> CHR ''_''"
proof
  assume "digit_char d = CHR ''_''"
  then have "of_char (digit_char d) = (of_char (CHR ''_'') :: nat)" by simp
  then show False using assms by (simp add: of_char_digit_char)
qed

lemma show_nat_not_Nil: "show_nat n \<noteq> []"
  by (subst show_nat.simps) simp

lemma show_nat_no_underscore: "CHR ''_'' \<notin> set (show_nat n)"
proof (induction n rule: show_nat.induct)
  case (1 n)
  show ?case
  proof (cases "n < 10")
    case True
    then show ?thesis
      using digit_char_not_underscore [of n] by (subst show_nat.simps) auto
  next
    case False
    moreover have "n mod 10 < 10" by simp
    ultimately show ?thesis
      using 1 digit_char_not_underscore [of "n mod 10"] by (subst show_nat.simps) auto
  qed
qed

lemma show_nat_inj: "show_nat n = show_nat m \<Longrightarrow> n = m"
proof (induction n arbitrary: m rule: show_nat.induct)
  case (1 n)
  show ?case
  proof (cases "n < 10")
    case small_n: True
    show ?thesis
    proof (cases "m < 10")
      case True
      with small_n "1.prems" show ?thesis
        by (auto simp: show_nat.simps [of n] show_nat.simps [of m] intro: digit_char_inj)
    next
      case False
      with small_n "1.prems" show_nat_not_Nil [of "m div 10"] show ?thesis
        by (auto simp: show_nat.simps [of n] show_nat.simps [of m])
    qed
  next
    case big_n: False
    show ?thesis
    proof (cases "m < 10")
      case True
      with big_n "1.prems" show_nat_not_Nil [of "n div 10"] show ?thesis
        by (auto simp: show_nat.simps [of n] show_nat.simps [of m])
    next
      case False
      with big_n "1.prems" have eq: "show_nat (n div 10) = show_nat (m div 10)"
        and d: "digit_char (n mod 10) = digit_char (m mod 10)"
        by (auto simp: show_nat.simps [of n] show_nat.simps [of m])
      from "1.IH" [OF big_n eq] have "n div 10 = m div 10" .
      moreover from d have "n mod 10 = m mod 10"
        by (intro digit_char_inj) auto
      ultimately show ?thesis
        by (metis div_mult_mod_eq)
    qed
  qed
qed

lemma id_suffix_append:
  assumes "CHR ''_'' \<notin> set b"
  shows "id_suffix (a @ CHR ''_'' # b) = b"
proof -
  have "takeWhile (\<lambda>c. c \<noteq> CHR ''_'') (rev b @ CHR ''_'' # rev a) = rev b"
    using assms by (subst takeWhile_append2) auto
  then show ?thesis by (simp add: id_suffix_def)
qed

lemma id_suffix_make_frame_id: "id_suffix (make_frame_id t n) = show_nat n"
proof -
  have "id_suffix (make_frame_id t n) = id_suffix ((''frame_'' @ show_int t) @ CHR ''_'' # show_nat n)"
    by (simp add: make_frame_id_def)
  also have "\<dots> = show_nat n"
    by (rule id_suffix_append [OF show_nat_no_underscore])
  finally show ?thesis .
qed

section \<open>The capture manager: helper lemmas\<close>

lemma frames_indexed_Nil: "frames_indexed []"
  by (simp add: frames_indexed_def)

lemma frames_indexed_snoc:
  assumes "frames_indexed fs" and "frame_id f = make_frame_id t (length fs)"
  shows "frames_indexed (fs @ [f])"
  using assms by (simp add: frames_indexed_def id_suffix_make_frame_id)

lemma frames_indexed_distinct:
  assumes "frames_indexed fs"
  shows "distinct (map frame_id fs)"
proof -
  have "distinct (map show_nat [0..<length fs])"
    by (simp add: distinct_map inj_on_def) (blast dest: show_nat_inj)
  with assms have "distinct (map (id_suffix \<circ> frame_id) fs)"
    by (simp add: frames_indexed_def comp_def)
  then show ?thesis
    by (auto simp: distinct_map inj_on_def)
qed

lemma session_inv_exec: "session_inv st \<Longrightarrow> session_inv (exec_call c st)"
proof (cases c)
  case (Start t1 t2)
  then show ?thesis
    by (simp add: session_inv_def startCaptureSession_def Let_def frames_indexed_Nil)
next
  case (Capture env)
  assume "session_inv st"
  then show ?thesis
    using Capture
    by (auto simp: session_inv_def captureFrame_def Let_def intro: frames_indexed_snoc
        split: option.splits sum.splits)
next
  case (Stop ok)
  assume "session_inv st"
  then show ?thesis using Stop
    by (auto simp: session_inv_def stopCaptureSession_def Let_def split: option.splits)
next
  case Reset
  then show ?thesis by (simp add: session_inv_def resetSession_def)
qed

lemma session_inv_run: "session_inv st \<Longrightarrow> session_inv (run_calls calls st)"
  unfolding run_calls_def
  by (induction calls arbitrary: st) (auto intro: session_inv_exec)

lemma session_inv_idle: "session_inv idle"
  by (simp add: session_inv_def idle_def)

lemma run_calls_Cons: "run_calls (c # calls) st = run_calls calls (exec_call c st)"
  by (simp add: run_calls_def)

lemma run_calls_append: "run_calls (xs @ ys) st = run_calls ys (run_calls xs st)"
  by (simp add: run_calls_def)

lemma run_calls_captures: "run_calls (map Capture envs) st = snd (capture_all envs st)"
  by (induction envs arbitrary: st) (simp_all add: run_calls_def split: prod.splits)

lemma run_calls_start_captures:
  "run_calls (Start t1 t2 # map Capture envs) st = snd (capture_all envs (snd (startCaptureSession t1 t2 st)))"
  by (simp add: run_calls_Cons run_calls_captures)

lemma captureFrame_Some:
  assumes "currentSession st = Some cs" and "fst (captureFrame env st) \<noteq> None"
  shows "\<exists>f. captureFrame env st =
           (Some f, st\<lparr>currentSession := Some (cs\<lparr>frames := frames cs @ [f], currentStep := currentStep cs + 1\<rparr>)\<rparr>)"
  using assms by (auto simp: captureFrame_def Let_def split: sum.splits)

lemma capture_all_success:
  assumes "currentSession st = Some cs" and "None \<notin> set (fst (capture_all envs st))"
  shows "\<exists>cs'. currentSession (snd (capture_all envs st)) = Some cs'
           \<and> length (frames cs') = length (frames cs) + length envs
           \<and> currentStep cs' = currentStep cs + length envs
           \<and> isActive cs' = isActive cs \<and> totalSteps cs' = totalSteps cs \<and> cs_id cs' = cs_id cs"
  using assms
proof (induction envs arbitrary: st cs)
  case Nil
  then show ?case by simp
next
  case (Cons env envs)
  from Cons.prems have ok: "fst (captureFrame env st) \<noteq> None"
    by (cases "fst (captureFrame env st)") (auto split: prod.splits)
  from captureFrame_Some [OF Cons.prems(1) ok] obtain f where
    cf: "captureFrame env st =
           (Some f, st\<lparr>currentSession := Some (cs\<lparr>frames := frames cs @ [f], currentStep := currentStep cs + 1\<rparr>)\<rparr>)"
    by blast
  let ?st1 = "st\<lparr>currentSession := Some (cs\<lparr>frames := frames cs @ [f], currentStep := currentStep cs + 1\<rparr>)\<rparr>"
  have rest: "None \<notin> set (fst (capture_all envs ?st1))"
    using Cons.prems(2) cf by (simp split: prod.splits)
  have "currentSession ?st1 = Some (cs\<lparr>frames := frames cs @ [f], currentStep := currentStep cs + 1\<rparr>)"
    by simp
  from Cons.IH [OF this rest] show ?case
    using cf by (auto split: prod.splits)
qed

lemma capture_all_ok:
  assumes "currentSession st \<noteq> None" and "\<forall>env \<in> set envs. \<exists>img. capture_image env = Inr img"
  shows "None \<notin> set (fst (capture_all envs st))"
  using assms
proof (induction envs arbitrary: st)
  case Nil
  then show ?case by simp
next
  case (Cons env envs)
  from Cons.prems obtain cs img where cs: "currentSession st = Some cs" and img: "capture_image env = Inr img"
    by auto
  have next_session: "currentSession (snd (captureFrame env st)) \<noteq> None"
    using cs img by (simp add: captureFrame_def Let_def)
  have "fst (captureFrame env st) \<noteq> None"
    using cs img by (simp add: captureFrame_def Let_def)
  moreover have "None \<notin> set (fst (capture_all envs (snd (captureFrame env st))))"
    using Cons.IH [OF next_session] Cons.prems(2) by simp
  ultimately show ?case
    by (auto split: prod.splits)
qed

lemma browser_env_ok: "\<exists>img. capture_image browser_env = Inr img"
  by (simp add: capture_image_def browser_env_def)

lemma started_session:
  "currentSession (snd (startCaptureSession t1 t2 st)) =
     Some \<lparr>cs_id = ''session_'' @ show_int t1, frames = [], startTime = t2, isActive = True,
           currentStep = 0, totalSteps = 10\<rparr>"
  by (simp add: startCaptureSession_def Let_def)

lemma currentSession_exec:
  "currentSession (exec_call c st) \<noteq> None \<longleftrightarrow> started_after c (currentSession st \<noteq> None)"
  by (cases c) (auto simp: startCaptureSession_def captureFrame_def stopCaptureSession_def
      resetSession_def Let_def split: option.splits sum.splits)

lemma currentSession_fold:
  "currentSession (fold exec_call calls st) \<noteq> None \<longleftrightarrow> fold started_after calls (currentSession st \<noteq> None)"
proof (induction calls arbitrary: st)
  case Nil
  show ?case by simp
next
  case (Cons c calls)
  have "currentSession (fold exec_call (c # calls) st) \<noteq> None
      \<longleftrightarrow> fold started_after calls (currentSession (exec_call c st) \<noteq> None)"
    using Cons.IH [of "exec_call c st"] by simp
  also have "\<dots> \<longleftrightarrow> fold started_after (c # calls) (currentSession st \<noteq> None)"
    by (simp only: currentSession_exec fold_simps)
  finally show ?case .
qed

lemma session_started_iff: "session_started calls \<longleftrightarrow> currentSession (run_calls calls idle) \<noteq> None"
  using currentSession_fold [of calls idle] by (simp add: session_started_def run_calls_def idle_def)

text \<open>
  The older copy of the hook is the current one with Capacitor always present, and its
  \<open>stopCaptureSession\<close> hands back the session as it was before the call.
\<close>

lemma captureFrame_v0_eq:
  "captureFrame_v0 env st = captureFrame (env\<lparr>isCapacitorAvailable := True\<rparr>) st"
  by (simp add: captureFrame_v0_def captureFrame_def capture_image_def split: option.splits sum.splits)

lemma stopCaptureSession_v0_result:
  "fst (stopCaptureSession_v0 st) = currentSession st
   \<and> currentSession (snd (stopCaptureSession_v0 st)) = map_option (\<lambda>cs. cs\<lparr>isActive := False\<rparr>) (currentSession st)
   \<and> \<not> isCapturing (snd (stopCaptureSession_v0 st))"
  by (simp add: stopCaptureSession_v0_def split: option.splits)

text \<open>
  When the write to \<open>localStorage\<close> throws, \<open>stopCaptureSession\<close> returns nothing; the
  session it had already stored is the finalized one and \<open>isCapturing\<close> keeps its value.
\<close>

lemma stopCaptureSession_write_fails:
  assumes "currentSession st = Some cs"
  shows "stopCaptureSession False st = (Inl QuotaExceeded, st\<lparr>currentSession := Some (cs\<lparr>isActive := False\<rparr>)\<rparr>)"
  using assms by (simp add: stopCaptureSession_def Let_def)

lemma stopCaptureSession_state:
  assumes "currentSession st = Some cs"
  shows "currentSession (snd (stopCaptureSession write_ok st)) = Some (cs\<lparr>isActive := False\<rparr>)"
  using assms by (simp add: stopCaptureSession_def Let_def)

section \<open>Claims about the Capture Session Manager\<close>

text \<open>
  C1.  From the idle manager, \<open>startCaptureSession\<close>, then ten \<open>captureFrame\<close> calls
  that each return a frame, then \<open>stopCaptureSession\<close> leave a session with exactly ten
  frames, \<open>currentStep = 10\<close> and \<open>isActive = false\<close>.  That session is the manager's
  \<open>currentSession\<close> whatever the write to \<open>localStorage\<close> does, and it is the value
  \<open>stopCaptureSession\<close> returns when the write goes through.
\<close>

theorem full_capture_sequence:
  assumes "length envs = 10"
    and "None \<notin> set (fst (capture_all envs (snd (startCaptureSession t1 t2 idle))))"
  shows "\<exists>cs. currentSession (run_calls (Start t1 t2 # map Capture envs @ [Stop write_ok]) idle) = Some cs
          \<and> length (frames cs) = 10 \<and> currentStep cs = 10 \<and> \<not> isActive cs
          \<and> fst (stopCaptureSession True (run_calls (Start t1 t2 # map Capture envs) idle)) = Inr (Some cs)"
proof -
  let ?st1 = "snd (startCaptureSession t1 t2 idle)"
  let ?st2 = "snd (capture_all envs ?st1)"
  from capture_all_success [OF started_session assms(2)] assms(1)
  obtain cs' where cs': "currentSession ?st2 = Some cs'" "length (frames cs') = 10" "currentStep cs' = 10"
    by auto
  have before_stop: "run_calls (Start t1 t2 # map Capture envs) idle = ?st2"
    by (simp add: run_calls_Cons run_calls_captures)
  have "run_calls (Start t1 t2 # map Capture envs @ [Stop write_ok]) idle = snd (stopCaptureSession write_ok ?st2)"
    using before_stop run_calls_append [of "Start t1 t2 # map Capture envs" "[Stop write_ok]" idle]
    by (simp add: run_calls_def)
  moreover have "currentSession (snd (stopCaptureSession write_ok ?st2)) = Some (cs'\<lparr>isActive := False\<rparr>)"
    by (rule stopCaptureSession_state [OF cs'(1)])
  moreover have "fst (stopCaptureSession True ?st2) = Inr (Some (cs'\<lparr>isActive := False\<rparr>))"
    using cs'(1) by (simp add: stopCaptureSession_def Let_def)
  ultimately show ?thesis
    using cs'(2,3) before_stop by simp
qed

theorem full_capture_sequence_witness:
  "length (replicate 10 browser_env) = 10
   \<and> None \<notin> set (fst (capture_all (replicate 10 browser_env) (snd (startCaptureSession 0 0 idle))))
   \<and> (\<exists>cs. currentSession (run_calls (Start 0 0 # map Capture (replicate 10 browser_env) @ [Stop False]) idle) = Some cs
          \<and> length (frames cs) = 10 \<and> currentStep cs = 10 \<and> \<not> isActive cs
          \<and> fst (stopCaptureSession True (run_calls (Start 0 0 # map Capture (replicate 10 browser_env)) idle)) = Inr (Some cs))"
proof -
  have len: "length (replicate 10 browser_env) = 10" by simp
  have ok: "None \<notin> set (fst (capture_all (replicate 10 browser_env) (snd (startCaptureSession 0 0 idle))))"
    by (rule capture_all_ok) (simp_all add: started_session browser_env_ok)
  from full_capture_sequence [OF len ok, of False] len ok show ?thesis by blast
qed

text \<open>
  C2 as stated does not hold: \<open>captureFrame\<close> increments \<open>currentStep\<close> without looking
  at \<open>totalSteps\<close>, so an eleventh successful capture gives \<open>currentStep = 11\<close> against
  \<open>totalSteps = 10\<close>.
\<close>

theorem currentStep_exceeds_totalSteps_counterexample:
  "map_option currentStep (currentSession (run_calls (Start 0 0 # map Capture (replicate 11 browser_env)) idle)) = Some 11
   \<and> map_option totalSteps (currentSession (run_calls (Start 0 0 # map Capture (replicate 11 browser_env)) idle)) = Some 10"
proof -
  have ok: "None \<notin> set (fst (capture_all (replicate 11 browser_env) (snd (startCaptureSession 0 0 idle))))"
    by (rule capture_all_ok) (simp_all add: started_session browser_env_ok)
  from capture_all_success [OF started_session ok]
  obtain cs' where "currentSession (snd (capture_all (replicate 11 browser_env) (snd (startCaptureSession 0 0 idle)))) = Some cs'"
    "currentStep cs' = 11" "totalSteps cs' = 10"
    by auto
  then show ?thesis
    by (simp only: run_calls_start_captures) simp
qed

text \<open>
  C2, amended.  In every state reached by a sequence of \<open>startCaptureSession\<close>,
  \<open>captureFrame\<close>, \<open>stopCaptureSession\<close> and \<open>resetSession\<close> calls in which
  \<open>captureFrame\<close> is called only while a session exists with \<open>currentStep < totalSteps\<close>
  (the guard of the auto-capture ticker), the session's \<open>currentStep\<close> does not exceed
  \<open>totalSteps\<close>, which is 10.
\<close>

theorem guarded_currentStep_le_totalSteps:
  assumes "capture_guarded calls idle"
  shows "\<forall>cs. currentSession (run_calls calls idle) = Some cs \<longrightarrow> currentStep cs \<le> totalSteps cs \<and> totalSteps cs = 10"
proof -
  have step: "step_bounded (exec_call c st)"
    if "step_bounded st" and "capture_guarded [c] st" for c st
  proof (cases c)
    case (Start t1 t2)
    then show ?thesis by (simp add: step_bounded_def startCaptureSession_def Let_def)
  next
    case (Capture env)
    with that show ?thesis
      by (auto simp: step_bounded_def ticker_guard_def captureFrame_def Let_def
          split: option.splits sum.splits)
  next
    case (Stop ok)
    with that(1) show ?thesis
      by (auto simp: step_bounded_def stopCaptureSession_def Let_def split: option.splits)
  next
    case Reset
    then show ?thesis by (simp add: step_bounded_def resetSession_def)
  qed
  have run: "step_bounded (run_calls calls st)" if "step_bounded st" and "capture_guarded calls st" for st
    using that
  proof (induction calls arbitrary: st)
    case Nil
    then show ?case by (simp add: run_calls_def)
  next
    case (Cons c calls)
    have "capture_guarded [c] st \<and> capture_guarded calls (exec_call c st)"
      using Cons.prems(2) by (cases c) simp_all
    then show ?case
      using Cons.IH [of "exec_call c st"] step [OF Cons.prems(1)] by (simp add: run_calls_Cons)
  qed
  have "step_bounded idle" by (simp add: step_bounded_def idle_def)
  from run [OF this assms] show ?thesis
    by (simp add: step_bounded_def split: option.splits)
qed

theorem guarded_currentStep_le_totalSteps_witness:
  "capture_guarded [Start 0 0, Capture browser_env, Stop True] idle
   \<and> (\<exists>cs. currentSession (run_calls [Start 0 0, Capture browser_env, Stop True] idle) = Some cs
         \<and> currentStep cs \<le> totalSteps cs \<and> totalSteps cs = 10)"
proof -
  have g: "capture_guarded [Start 0 0, Capture browser_env, Stop True] idle"
    by (simp add: ticker_guard_def startCaptureSession_def Let_def)
  have "session_started [Start 0 0, Capture browser_env, Stop True]"
    by (simp add: session_started_def)
  then obtain cs where "currentSession (run_calls [Start 0 0, Capture browser_env, Stop True] idle) = Some cs"
    using session_started_iff by blast
  with guarded_currentStep_le_totalSteps [OF g] g show ?thesis by blast
qed

text \<open>
  A \<open>stopCaptureSession\<close> call of the current hook that returns, that is, whose write to
  \<open>localStorage\<close> went through: with a session started and not reset it returns that
  session with \<open>isActive\<close> set to \<open>false\<close> and nothing else changed, and stores the
  same object; with none it returns \<open>null\<close>.
\<close>

lemma stopCaptureSession_returning_call:
  "(session_started calls \<longrightarrow>
      (\<exists>cs. currentSession (run_calls calls idle) = Some cs
         \<and> fst (stopCaptureSession True (run_calls calls idle)) = Inr (Some (cs\<lparr>isActive := False\<rparr>))
         \<and> currentSession (snd (stopCaptureSession True (run_calls calls idle))) = Some (cs\<lparr>isActive := False\<rparr>)
         \<and> \<not> isCapturing (snd (stopCaptureSession True (run_calls calls idle)))))
   \<and> (\<not> session_started calls \<longrightarrow>
        fst (stopCaptureSession write_ok (run_calls calls idle)) = Inr None
        \<and> currentSession (snd (stopCaptureSession write_ok (run_calls calls idle))) = None)"
  by (auto simp: session_started_iff stopCaptureSession_def Let_def)

text \<open>
  C4.  The claim asks that \<open>stopCaptureSession\<close> return the finalized session, with
  \<open>isActive = false\<close>, whenever a session has been started.  The code misses it in two
  places, shown here on the state right after \<open>startCaptureSession\<close>.  In the current hook
  the write to \<open>localStorage\<close> stands outside any \<open>try\<close>: when it throws, the call
  returns no session at all, although the finalized session is already stored, and
  \<open>isCapturing\<close> stays true.  In the older copy of the hook the call returns the session it
  was called with, whose \<open>isActive\<close> is still true, while the stored one is finalized.
\<close>

theorem stopCaptureSession_misses_finalized:
  "map_option isActive (currentSession (snd (startCaptureSession 0 0 idle))) = Some True
   \<and> fst (stopCaptureSession False (snd (startCaptureSession 0 0 idle))) = Inl QuotaExceeded
   \<and> map_option isActive
        (currentSession (snd (stopCaptureSession False (snd (startCaptureSession 0 0 idle))))) = Some False
   \<and> isCapturing (snd (stopCaptureSession False (snd (startCaptureSession 0 0 idle))))
   \<and> map_option isActive (fst (stopCaptureSession_v0 (snd (startCaptureSession 0 0 idle)))) = Some True
   \<and> map_option isActive
        (currentSession (snd (stopCaptureSession_v0 (snd (startCaptureSession 0 0 idle))))) = Some False"
  by (simp add: startCaptureSession_def stopCaptureSession_def stopCaptureSession_v0_def idle_def Let_def)

text \<open>
  C6.  With a session present, a \<open>captureFrame\<close> call during which the haptics or the
  camera plugin fails returns \<open>null\<close> and leaves the whole manager state, and so the
  session's frames, \<open>currentStep\<close> and \<open>isActive\<close>, exactly as it was; the next call
  starts from the same state.  The plugins are called when Capacitor is present.
\<close>

theorem captureFrame_failure_unchanged:
  assumes "currentSession st = Some cs" and "isCapacitorAvailable env"
    and "haptics_impact env = Inl e1 \<or> camera_getPhoto env = Inl e2"
  shows "captureFrame env st = (None, st)"
  using assms by (auto simp: captureFrame_def capture_image_def split: sum.splits)

theorem captureFrame_failure_unchanged_witness:
  "currentSession (snd (startCaptureSession 0 0 idle)) \<noteq> None
   \<and> isCapacitorAvailable camera_down_env
   \<and> camera_getPhoto camera_down_env = Inl CameraFailed
   \<and> captureFrame camera_down_env (snd (startCaptureSession 0 0 idle)) = (None, snd (startCaptureSession 0 0 idle))"
proof -
  have a: "isCapacitorAvailable camera_down_env" by (simp add: camera_down_env_def)
  have b: "haptics_impact camera_down_env = Inl HapticsFailed \<or> camera_getPhoto camera_down_env = Inl CameraFailed"
    by (simp add: camera_down_env_def)
  from captureFrame_failure_unchanged [OF started_session a b] a b show ?thesis
    by (simp add: started_session camera_down_env_def)
qed

text \<open>
  C8.  In every state the manager can reach, the ids of the frames of the current session
  are pairwise distinct.  The clock readings are arbitrary, so this covers frames captured
  within the same millisecond: the id ends in the number of frames captured before it.
\<close>

theorem frame_ids_distinct:
  "\<forall>cs. currentSession (run_calls calls idle) = Some cs \<longrightarrow> distinct (map frame_id (frames cs))"
  using session_inv_run [OF session_inv_idle, of calls]
  by (auto simp: session_inv_def intro: frames_indexed_distinct split: option.splits)

theorem frame_ids_distinct_witness:
  "\<exists>cs. currentSession (run_calls (Start 0 0 # map Capture [browser_env, browser_env]) idle) = Some cs
      \<and> length (frames cs) = 2
      \<and> map timestamp (frames cs) = [5, 5]
      \<and> distinct (map frame_id (frames cs))"
proof -
  obtain cs where cs: "currentSession (run_calls (Start 0 0 # map Capture [browser_env, browser_env]) idle) = Some cs"
    and props: "length (frames cs) = 2" "map timestamp (frames cs) = [5, 5]"
    by (simp add: run_calls_def startCaptureSession_def captureFrame_def capture_image_def
        browser_env_def idle_def Let_def)
  from frame_ids_distinct [of "Start 0 0 # map Capture [browser_env, browser_env]"] cs
  have "distinct (map frame_id (frames cs))" by blast
  with cs props show ?thesis by (intro exI [of _ cs]) simp
qed

text \<open>
  C10.  \<open>resetSession\<close> in any manager state gives \<open>currentSession = null\<close> and
  \<open>isCapturing = false\<close>, and a second call changes nothing.
\<close>

theorem resetSession_clears_idempotent:
  "currentSession (resetSession st) = None \<and> \<not> isCapturing (resetSession st)
   \<and> resetSession (resetSession st) = resetSession st"
  by (simp add: resetSession_def)

section \<open>Claims about the Walkthrough Store\<close>

text \<open>
  C7.  \<open>updateSession\<close> with an id that no stored session has leaves the list as it was:
  the same sessions in the same order, none of them rebuilt, no \<open>updatedAt\<close> touched.
\<close>

theorem updateSession_missing_id_unchanged:
  assumes "i \<notin> ws_id ` set (storedValue st)"
  shows "storedValue (updateSession write_ok now i updates st) = storedValue st"
proof -
  have "map (\<lambda>s. if ws_id s = i then merge_session s updates now else s) (storedValue st) = storedValue st"
    using assms by (intro map_idI) auto
  then show ?thesis
    by (simp add: updateSession_def setValue_def Let_def)
qed

theorem updateSession_missing_id_unchanged_witness:
  "''session_7'' \<notin> ws_id ` set (storedValue sample_store)
   \<and> storedValue (updateSession True 500 ''session_7'' mark_uploaded sample_store) = storedValue sample_store
   \<and> storedValue sample_store \<noteq> []"
proof -
  have a: "''session_7'' \<notin> ws_id ` set (storedValue sample_store)"
    by (simp add: sample_store_def sample_session_def)
  from updateSession_missing_id_unchanged [OF a, of True 500 mark_uploaded] a show ?thesis
    by (simp add: sample_store_def)
qed

text \<open>
  C9 as stated does not hold: \<open>updatedAt\<close> is whatever \<open>Date.now()\<close> reads, and nothing
  compares it with the stored timestamps.  A session created and last updated at 100 that
  is marked uploaded when the clock reads 50 ends with \<open>updatedAt = 50\<close>, below both its
  \<open>createdAt\<close> and its previous \<open>updatedAt\<close>.  And with the clock at 500, partial fields
  that carry \<open>createdAt = 900\<close> leave \<open>updatedAt = 500\<close> below \<open>createdAt = 900\<close>.
\<close>

theorem updateSession_updatedAt_counterexample:
  "map ws_id (storedValue sample_store) = [''session_100'']
   \<and> map createdAt (storedValue (updateSession True 50 ''session_100'' mark_uploaded sample_store)) = [100]
   \<and> map updatedAt (storedValue sample_store) = [100]
   \<and> map updatedAt (storedValue (updateSession True 50 ''session_100'' mark_uploaded sample_store)) = [50]
   \<and> map createdAt (storedValue (updateSession True 500 ''session_100'' move_createdAt sample_store)) = [900]
   \<and> map updatedAt (storedValue (updateSession True 500 ''session_100'' move_createdAt sample_store)) = [500]"
  by (simp add: sample_store_def sample_session_def mark_uploaded_def move_createdAt_def
      updateSession_def setValue_def merge_session_def spread_def Let_def)

text \<open>
  C9, amended.  For a session present in the store, every \<open>updateSession\<close> call on its id
  sets \<open>updatedAt\<close> to the clock reading of the call, whatever the stored timestamps and
  the partial fields are, and leaves \<open>createdAt\<close> as the one in the partial fields if there
  is one, the stored one otherwise.  So afterwards \<open>updatedAt \<ge> createdAt\<close> holds exactly
  when the reading is not below that \<open>createdAt\<close>, and \<open>updatedAt \<ge>\<close> the previous
  \<open>updatedAt\<close> holds exactly when the reading is not below the previous \<open>updatedAt\<close>.
\<close>

theorem updateSession_stamps_updatedAt:
  assumes "k < length (storedValue st)" and "ws_id (storedValue st ! k) = i"
  shows "updatedAt (storedValue (updateSession write_ok now i updates st) ! k) = now
       \<and> createdAt (storedValue (updateSession write_ok now i updates st) ! k)
           = spread (createdAt (storedValue st ! k)) (set_createdAt updates)
       \<and> (createdAt (storedValue (updateSession write_ok now i updates st) ! k)
             \<le> updatedAt (storedValue (updateSession write_ok now i updates st) ! k)
           \<longleftrightarrow> spread (createdAt (storedValue st ! k)) (set_createdAt updates) \<le> now)
       \<and> (updatedAt (storedValue st ! k)
             \<le> updatedAt (storedValue (updateSession write_ok now i updates st) ! k)
           \<longleftrightarrow> updatedAt (storedValue st ! k) \<le> now)"
  using assms by (simp add: updateSession_def setValue_def Let_def merge_session_def)

theorem updateSession_stamps_updatedAt_witness:
  "(0::nat) < length (storedValue sample_store)
   \<and> ws_id (storedValue sample_store ! 0) = ''session_100''
   \<and> createdAt (storedValue sample_store ! 0) = 100
   \<and> updatedAt (storedValue sample_store ! 0) = 100
   \<and> updatedAt (storedValue (updateSession True 500 ''session_100'' mark_uploaded sample_store) ! 0) = 500
   \<and> createdAt (storedValue (updateSession True 500 ''session_100'' mark_uploaded sample_store) ! 0) = 100
   \<and> updatedAt (storedValue (updateSession True 50 ''session_100'' mark_uploaded sample_store) ! 0) = 50
   \<and> createdAt (storedValue (updateSession True 500 ''session_100'' move_createdAt sample_store) ! 0) = 900"
proof -
  have a: "0 < length (storedValue sample_store)" by (simp add: sample_store_def)
  have b: "ws_id (storedValue sample_store ! 0) = ''session_100''"
    by (simp add: sample_store_def sample_session_def)
  have c: "createdAt (storedValue sample_store ! 0) = 100" "updatedAt (storedValue sample_store ! 0) = 100"
    by (simp_all add: sample_store_def sample_session_def)
  have d: "spread (createdAt (storedValue sample_store ! 0)) (set_createdAt mark_uploaded) = 100"
    "spread (createdAt (storedValue sample_store ! 0)) (set_createdAt move_createdAt) = 900"
    by (simp_all add: sample_store_def sample_session_def mark_uploaded_def move_createdAt_def spread_def)
  from updateSession_stamps_updatedAt [OF a b, of True 500 mark_uploaded]
       updateSession_stamps_updatedAt [OF a b, of True 50 mark_uploaded]
       updateSession_stamps_updatedAt [OF a b, of True 500 move_createdAt]
       a b c d
  show ?thesis by simp
qed

section \<open>Claims about the Playback Controller\<close>

lemma playback_tick_stopped: "\<not> isPlaying v \<Longrightarrow> playback_tick v = v"
  by (simp add: playback_tick_def split: option.splits)

lemma playback_ticks_stopped: "\<not> isPlaying v \<Longrightarrow> (playback_tick ^^ k) v = v"
  by (induction k) (simp_all add: playback_tick_stopped)

lemma playback_tick_advance:
  assumes "session v = Some s" and "isPlaying v"
    and "currentFrameIndex v < int (length (ws_frames s)) - 1"
  shows "playback_tick v = v\<lparr>currentFrameIndex := currentFrameIndex v + 1\<rparr>"
  using assms by (simp add: playback_tick_def)

lemma playback_tick_last:
  assumes "session v = Some s" and "isPlaying v"
    and "currentFrameIndex v \<ge> int (length (ws_frames s)) - 1"
  shows "playback_tick v = v\<lparr>isPlaying := False, currentFrameIndex := 0\<rparr>"
  using assms by (simp add: playback_tick_def)

lemma playback_ticks_from_last:
  assumes "session v = Some s" and "isPlaying v"
    and "currentFrameIndex v \<ge> int (length (ws_frames s)) - 1"
  shows "(playback_tick ^^ Suc k) v = v\<lparr>isPlaying := False, currentFrameIndex := 0\<rparr>"
proof -
  have "(playback_tick ^^ Suc k) v = (playback_tick ^^ k) (playback_tick v)"
    by (simp only: funpow_Suc_right o_apply)
  also have "\<dots> = (playback_tick ^^ k) (v\<lparr>isPlaying := False, currentFrameIndex := 0\<rparr>)"
    using playback_tick_last [OF assms] by simp
  also have "\<dots> = v\<lparr>isPlaying := False, currentFrameIndex := 0\<rparr>"
    by (rule playback_ticks_stopped) simp
  finally show ?thesis .
qed

lemma playback_ticks_reach_end:
  assumes "session v = Some s" and "isPlaying v"
    and "0 \<le> currentFrameIndex v" and "currentFrameIndex v \<le> int (length (ws_frames s)) - 1"
    and "int k \<ge> int (length (ws_frames s)) - currentFrameIndex v"
  shows "(playback_tick ^^ k) v = v\<lparr>isPlaying := False, currentFrameIndex := 0\<rparr>"
  using assms
proof (induction "nat (int (length (ws_frames s)) - 1 - currentFrameIndex v)" arbitrary: v k)
  case 0
  then have at_last: "currentFrameIndex v \<ge> int (length (ws_frames s)) - 1" by simp
  from 0 obtain k' where k: "k = Suc k'" by (cases k) auto
  show ?case unfolding k using playback_ticks_from_last [OF "0.prems"(1,2) at_last] .
next
  case (Suc d)
  then have lt: "currentFrameIndex v < int (length (ws_frames s)) - 1" by simp
  from Suc.prems obtain k' where k: "k = Suc k'" by (cases k) auto
  let ?v1 = "v\<lparr>currentFrameIndex := currentFrameIndex v + 1\<rparr>"
  have step: "playback_tick v = ?v1" using playback_tick_advance [OF Suc.prems(1,2) lt] .
  have "(playback_tick ^^ k') ?v1 = ?v1\<lparr>isPlaying := False, currentFrameIndex := 0\<rparr>"
  proof (rule Suc.hyps(1))
    show "d = nat (int (length (ws_frames s)) - 1 - currentFrameIndex ?v1)" using Suc.hyps(2) by simp
    show "session ?v1 = Some s" using Suc.prems(1) by simp
    show "isPlaying ?v1" using Suc.prems(2) by simp
    show "0 \<le> currentFrameIndex ?v1" using Suc.prems(3) by simp
    show "currentFrameIndex ?v1 \<le> int (length (ws_frames s)) - 1" using lt by simp
    show "int (length (ws_frames s)) - currentFrameIndex ?v1 \<le> int k'" using Suc.prems(5) k by simp
  qed
  moreover have "(playback_tick ^^ k) v = (playback_tick ^^ k') (playback_tick v)"
    unfolding k by (simp only: funpow_Suc_right o_apply)
  ultimately show ?case using step by simp
qed

text \<open>
  C3.  With a session of at least one frame loaded and \<open>isPlaying\<close> true, a tick below the
  last frame moves \<open>currentFrameIndex\<close> up by one and keeps playing; the tick at the last frame
  sets \<open>currentFrameIndex\<close> to 0 and \<open>isPlaying\<close> to false, and no later tick changes that
  state, so playback does not go on from frame 0 by itself.  Counted from index \<open>i\<close> of
  \<open>n\<close> frames, any \<open>n - i\<close> or more ticks end in that stopped state.
\<close>

theorem playback_tick_behaviour:
  assumes "session v = Some s" and "ws_frames s \<noteq> []" and "isPlaying v"
    and "0 \<le> currentFrameIndex v" and "currentFrameIndex v \<le> int (length (ws_frames s)) - 1"
  shows "(currentFrameIndex v < int (length (ws_frames s)) - 1 \<longrightarrow>
            playback_tick v = v\<lparr>currentFrameIndex := currentFrameIndex v + 1\<rparr>)
       \<and> (currentFrameIndex v = int (length (ws_frames s)) - 1 \<longrightarrow>
            (\<forall>k. (playback_tick ^^ Suc k) v = v\<lparr>isPlaying := False, currentFrameIndex := 0\<rparr>))
       \<and> (\<forall>k. int (length (ws_frames s)) - currentFrameIndex v \<le> int k \<longrightarrow>
            (playback_tick ^^ k) v = v\<lparr>isPlaying := False, currentFrameIndex := 0\<rparr>)"
  using playback_tick_advance [OF assms(1,3)] playback_ticks_from_last [OF assms(1,3)]
    playback_ticks_reach_end [OF assms(1,3,4,5)]
  by simp

theorem playback_tick_behaviour_witness:
  "playback_tick (sample_viewer 5 0) = sample_viewer 5 1
   \<and> playback_tick (sample_viewer 5 4) = (sample_viewer 5 0)\<lparr>isPlaying := False\<rparr>
   \<and> (playback_tick ^^ 3) (sample_viewer 5 4) = (sample_viewer 5 0)\<lparr>isPlaying := False\<rparr>
   \<and> (playback_tick ^^ 5) (sample_viewer 5 0) = (sample_viewer 5 0)\<lparr>isPlaying := False\<rparr>
   \<and> (playback_tick ^^ 7) (sample_viewer 5 0) = (sample_viewer 5 0)\<lparr>isPlaying := False\<rparr>"
proof -
  let ?s = "sample_session ''session_100'' (replicate 5 sample_frame) 100 100"
  have s: "session (sample_viewer 5 i) = Some ?s" for i by (simp add: sample_viewer_def)
  have ne: "ws_frames ?s \<noteq> []" by (simp add: sample_session_def)
  have playing: "isPlaying (sample_viewer 5 i)" for i by (simp add: sample_viewer_def)
  have len: "int (length (ws_frames ?s)) = 5" by (simp add: sample_session_def)
  have idx: "currentFrameIndex (sample_viewer 5 i) = i" for i by (simp add: sample_viewer_def)
  have at0: "0 \<le> currentFrameIndex (sample_viewer 5 0)"
    "currentFrameIndex (sample_viewer 5 0) \<le> int (length (ws_frames ?s)) - 1"
    by (simp_all add: idx len)
  have at4: "0 \<le> currentFrameIndex (sample_viewer 5 4)"
    "currentFrameIndex (sample_viewer 5 4) \<le> int (length (ws_frames ?s)) - 1"
    by (simp_all add: idx len)
  note first = playback_tick_behaviour [OF s ne playing at0]
  note last = playback_tick_behaviour [OF s ne playing at4]
  have "playback_tick (sample_viewer 5 0) = sample_viewer 5 1"
    using first by (simp add: idx len) (simp add: sample_viewer_def)
  moreover have "(playback_tick ^^ Suc 0) (sample_viewer 5 4) = (sample_viewer 5 0)\<lparr>isPlaying := False\<rparr>"
    using last by (simp only: idx len) (simp add: sample_viewer_def)
  moreover have "(playback_tick ^^ Suc 2) (sample_viewer 5 4) = (sample_viewer 5 0)\<lparr>isPlaying := False\<rparr>"
    using last by (simp only: idx len) (simp add: sample_viewer_def)
  moreover have "(playback_tick ^^ 5) (sample_viewer 5 0) = (sample_viewer 5 0)\<lparr>isPlaying := False\<rparr>"
    using first by (simp only: idx len) (simp add: sample_viewer_def)
  moreover have "(playback_tick ^^ 7) (sample_viewer 5 0) = (sample_viewer 5 0)\<lparr>isPlaying := False\<rparr>"
    using first by (simp only: idx len) (simp add: sample_viewer_def)
  ultimately show ?thesis
    by (simp add: numeral_3_eq_3)
qed

text \<open>
  C5.  The progress line guards the division with \<open>frames.length > 0\<close> and divides by
  \<open>frames.length - 1\<close>.  For a session with exactly one frame the guard passes and the
  divisor is zero: at frame 0 the value is \<open>0 / 0\<close>, which is \<open>NaN\<close>.
\<close>

theorem progress_single_frame_NaN:
  "length (ws_frames (sample_session ''session_100'' [sample_frame] 100 100)) = 1
   \<and> progress (sample_session ''session_100'' [sample_frame] 100 100)
        \<lparr>session = Some (sample_session ''session_100'' [sample_frame] 100 100),
         currentFrameIndex = 0, isPlaying = False, playbackSpeed = 1000\<rparr> = NaN"
  by (simp add: progress_def js_divide_def times_100_def sample_session_def)

text \<open>
  The value of \<open>progress\<close> is a finite number exactly for the sessions whose number of
  frames is not one.  With no frames it is 0 and both handlers leave the index alone; the
  \<open>disabled\<close> flag of the Next button compares 0 with \<open>-1\<close> and is false.
\<close>

lemma progress_finite_iff: "(\<exists>r. progress s v = Finite r) \<longleftrightarrow> length (ws_frames s) \<noteq> 1"
  by (auto simp: progress_def js_divide_def times_100_def)

lemma zero_frames_viewer:
  assumes "ws_frames s = []" and "currentFrameIndex v = 0"
  shows "progress s v = Finite 0 \<and> goToNextFrame s v = v \<and> goToPrevFrame v = v
       \<and> prev_disabled v \<and> \<not> next_disabled s v"
  using assms by (simp add: progress_def goToNextFrame_def goToPrevFrame_def prev_disabled_def next_disabled_def)

end
